theory Spec2Isabelle
  imports Complex_Main "HOL-Library.AList" "HOL-Library.Sublist"
begin

section \<open>Data model of the prefetch queue\<close>

text \<open>
  The development follows the class \<open>PrefetchQueue\<close> (the movie prefetching system of the
  game).  Its private fields become the fields of a record.  The two limits \<open>size\<close> and
  \<open>concurrency\<close> are JavaScript numbers that the source accepts as they come, whole or
  not: they are real numbers here.  The counters start at zero and are only incremented:
  they are naturals.
\<close>

record MovieResult =
  movie_title :: string
  movie_id :: int
  release_year :: string
  imdb_rating :: "string option"
  trailer_link :: string

record PrefetchStats =
  queued :: nat
  servedImmediate :: nat
  servedAfterWait :: nat
  timeouts :: nat
  inFlightMax :: nat

record PrefetchFilters =
  startYear :: "int option"
  endYear :: "int option"
  language :: "string option"

text \<open>
  The calls of the private method \<open>log(msg, data)\<close>, one constructor per message.  The
  sequence of these calls is kept in the field \<open>logged\<close>; the source prints an entry only
  when debugging is switched on in the browser.
\<close>

datatype log_entry =
    LogSetConfig real real
  | LogSetFilters PrefetchFilters
  | LogServeImmediate int nat
  | LogServeAfterWait int nat
  | LogTimeout
  | LogQueued int nat

text \<open>
  \<open>fillOne\<close> is an asynchronous method: an invocation runs until it reaches an
  \<open>await\<close>, and is resumed when the awaited promise settles.  A suspended invocation is a
  frame holding its local variable \<open>attempt\<close> and what it waits for: the Supplier call, or
  the timer of \<open>backoff\<close> with its delay in milliseconds.  The frame is stored under the
  invocation's \<open>AbortController\<close>, which is a natural number handed out by a counter.
\<close>

datatype awaited = Supplier | Timer real

record fillOne_frame =
  attempt :: nat
  waits_for :: awaited

text \<open>How a Supplier call can settle: with a movie, with \<open>null\<close>, or by rejecting.\<close>

datatype supplier_outcome = Candidate MovieResult | NoCandidate | Thrown

text \<open>
  \<open>inFlight\<close> is a JavaScript \<open>Set\<close> of controllers, which keeps insertion order: a list.
  \<open>aborted\<close> holds the controllers whose \<open>abort()\<close> has been called, \<open>fillTimers\<close> counts
  the pending \<open>setTimeout(() => this.fill(), 10)\<close> callbacks.
\<close>

record PrefetchQueue =
  size_cfg :: real
  concurrency :: real
  queue :: "MovieResult list"
  seenIds :: "int set"
  inFlight :: "nat list"
  filling :: bool
  stats :: PrefetchStats
  filters :: PrefetchFilters
  frames :: "(nat \<times> fillOne_frame) list"
  aborted :: "nat set"
  nextController :: nat
  fillTimers :: nat
  logged :: "log_entry list"

datatype 'a promise = Pending | Resolved 'a

section \<open>Construction and configuration\<close>

definition zero_stats :: PrefetchStats where
  "zero_stats = \<lparr>queued = 0, servedImmediate = 0, servedAfterWait = 0, timeouts = 0, inFlightMax = 0\<rparr>"

definition empty_filters :: PrefetchFilters where
  "empty_filters = \<lparr>startYear = None, endYear = None, language = None\<rparr>"

text \<open>
  \<open>readNumber(key, def)\<close>: the argument \<open>stored\<close> gives the finite number parsed from
  the local storage under a key (any finite number, \<open>1.5\<close> for the text \<open>1.5\<close>), \<open>None\<close>
  when there is none, it is not a finite number, or reading fails.
\<close>

definition readNumber :: "(string \<Rightarrow> real option) \<Rightarrow> string \<Rightarrow> real \<Rightarrow> real" where
  "readNumber stored key def =
     (case stored key of None \<Rightarrow> def | Some n \<Rightarrow> if n > 0 then n else def)"

definition new_PrefetchQueue ::
  "(string \<Rightarrow> real option) \<Rightarrow> real option \<Rightarrow> real option \<Rightarrow> PrefetchQueue" where
  "new_PrefetchQueue stored opt_size opt_concurrency =
     \<lparr>size_cfg = (case opt_size of Some n \<Rightarrow> n | None \<Rightarrow> readNumber stored ''prefetchSize'' 3),
      concurrency = max 1 (case opt_concurrency of Some n \<Rightarrow> n
                            | None \<Rightarrow> readNumber stored ''prefetchConcurrency'' 2),
      queue = [], seenIds = {}, inFlight = [], filling = False,
      stats = zero_stats, filters = empty_filters,
      frames = [], aborted = {}, nextController = 0, fillTimers = 0, logged = []\<rparr>"

text \<open>The shared singleton: \<open>new PrefetchQueue({ size: 3, concurrency: 2 })\<close>.\<close>

definition prefetchQueue :: PrefetchQueue where
  "prefetchQueue = new_PrefetchQueue (\<lambda>_. None) (Some 3) (Some 2)"

definition getStats :: "PrefetchQueue \<Rightarrow> PrefetchStats" where
  "getStats s = stats s"

definition resetStats :: "PrefetchQueue \<Rightarrow> PrefetchQueue" where
  "resetStats s = s\<lparr>stats := zero_stats\<rparr>"

definition log_pq :: "log_entry \<Rightarrow> PrefetchQueue \<Rightarrow> PrefetchQueue" where
  "log_pq e s = s\<lparr>logged := logged s @ [e]\<rparr>"

section \<open>Fetch attempts\<close>

definition maxAttempts :: nat where
  "maxAttempts = 6"

text \<open>
  \<open>backoff(attempt)\<close> waits for \<open>delay\<close> milliseconds; \<open>rnd\<close> is the value of
  \<open>Math.random()\<close>, a number in \<open>[0, 1)\<close>.  Arithmetic is exact here.
\<close>

definition jitter_of :: "real \<Rightarrow> real" where
  "jitter_of rnd = of_int \<lfloor>rnd * 80\<rfloor>"

definition backoff_delay :: "nat \<Rightarrow> real \<Rightarrow> real" where
  "backoff_delay n rnd = min 1500 (120 * 1.6 ^ n + jitter_of rnd)"

text \<open>The \<open>finally\<close> block of \<open>fillOne\<close>; the invocation is over.\<close>

definition fillOne_finally :: "nat \<Rightarrow> PrefetchQueue \<Rightarrow> PrefetchQueue" where
  "fillOne_finally c s =
     s\<lparr>inFlight := removeAll c (inFlight s), frames := AList.delete c (frames s)\<rparr>"

text \<open>
  The head of the retry loop with \<open>attempt = n\<close>: either \<open>attempt++\<close> and the next Supplier
  call, at which the invocation is suspended, or the end of the loop.
\<close>

definition fillOne_loop :: "nat \<Rightarrow> nat \<Rightarrow> PrefetchQueue \<Rightarrow> PrefetchQueue" where
  "fillOne_loop c n s =
     (if n < maxAttempts \<and> real (length (queue s)) < size_cfg s
      then s\<lparr>frames := AList.update c \<lparr>attempt = n + 1, waits_for = Supplier\<rparr> (frames s)\<rparr>
      else fillOne_finally c s)"

text \<open>
  A call of \<open>fillOne()\<close>, up to its first \<open>await\<close>.  The controller is new, so adding it to
  the set appends it.
\<close>

definition fillOne :: "PrefetchQueue \<Rightarrow> PrefetchQueue" where
  "fillOne s =
     (let c = nextController s
      in fillOne_loop c 0 (s\<lparr>nextController := c + 1, inFlight := inFlight s @ [c]\<rparr>))"

text \<open>The body of the loop after a novel candidate has arrived, up to \<open>break\<close>.\<close>

definition accept :: "MovieResult \<Rightarrow> PrefetchQueue \<Rightarrow> PrefetchQueue" where
  "accept m s =
     (let s1 = s\<lparr>seenIds := insert (movie_id m) (seenIds s)\<rparr>;
          s2 = s1\<lparr>queue := queue s1 @ [m]\<rparr>;
          s3 = s2\<lparr>stats := (stats s2)\<lparr>queued := queued (stats s2) + 1\<rparr>\<rparr>
      in log_pq (LogQueued (movie_id m) (length (queue s3))) s3)"

text \<open>
  The invocation with controller \<open>c\<close> is resumed because its Supplier call has settled.
  Nothing happens when there is no such invocation or it waits for its timer.
\<close>

definition fillOne_settled ::
  "nat \<Rightarrow> supplier_outcome \<Rightarrow> real \<Rightarrow> PrefetchQueue \<Rightarrow> PrefetchQueue" where
  "fillOne_settled c out rnd s =
     (case map_of (frames s) c of
        None \<Rightarrow> s
      | Some fr \<Rightarrow>
          (case waits_for fr of
             Timer d \<Rightarrow> s
           | Supplier \<Rightarrow>
               (case out of
                  Thrown \<Rightarrow> fillOne_finally c s
                | NoCandidate \<Rightarrow>
                    s\<lparr>frames := AList.update c
                         (fr\<lparr>waits_for := Timer (backoff_delay (attempt fr) rnd)\<rparr>) (frames s)\<rparr>
                | Candidate m \<Rightarrow>
                    if movie_id m \<in> seenIds s then fillOne_loop c (attempt fr) s
                    else fillOne_finally c (accept m s))))"

text \<open>The invocation is resumed because the timer of \<open>backoff\<close> has fired: \<open>continue\<close>.\<close>

definition fillOne_timer :: "nat \<Rightarrow> PrefetchQueue \<Rightarrow> PrefetchQueue" where
  "fillOne_timer c s =
     (case map_of (frames s) c of
        None \<Rightarrow> s
      | Some fr \<Rightarrow>
          (case waits_for fr of
             Supplier \<Rightarrow> s
           | Timer d \<Rightarrow> fillOne_loop c (attempt fr) s))"

section \<open>Filling\<close>

definition wants_more :: "PrefetchQueue \<Rightarrow> bool" where
  "wants_more s \<longleftrightarrow>
     real (length (queue s)) < size_cfg s \<and> real (length (inFlight s)) < concurrency s"

definition note_inFlight :: "PrefetchQueue \<Rightarrow> PrefetchQueue" where
  "note_inFlight s =
     s\<lparr>stats := (stats s)\<lparr>inFlightMax := max (inFlightMax (stats s)) (length (inFlight s))\<rparr>\<rparr>"

function fill_loop :: "PrefetchQueue \<Rightarrow> PrefetchQueue" where
  "fill_loop s = (if wants_more s then fill_loop (note_inFlight (fillOne s)) else s)"
  by pat_completeness auto
termination
proof (relation "measure (\<lambda>s. nat \<lceil>concurrency s - real (length (inFlight s))\<rceil>)")
  show "wf (measure (\<lambda>s. nat \<lceil>concurrency s - real (length (inFlight s))\<rceil>))"
    by simp
next
  fix s
  assume more: "wants_more s"
  let ?room = "concurrency s - real (length (inFlight s))"
  have after: "concurrency (note_inFlight (fillOne s)) -
      real (length (inFlight (note_inFlight (fillOne s)))) = ?room - 1"
    using more
    by (simp add: fillOne_def fillOne_loop_def maxAttempts_def Let_def note_inFlight_def
        wants_more_def)
  have "0 < ?room" using more by (simp add: wants_more_def)
  then have "0 < \<lceil>?room\<rceil>" by simp
  then have "nat \<lceil>?room - 1\<rceil> < nat \<lceil>?room\<rceil>" by simp
  then show "(note_inFlight (fillOne s), s)
      \<in> measure (\<lambda>s. nat \<lceil>concurrency s - real (length (inFlight s))\<rceil>)"
    unfolding after [symmetric] by simp
qed

text \<open>
  \<open>fill()\<close>.  The function \<open>tick\<close> contains no \<open>await\<close>, so it runs to its end inside the
  call.
\<close>

definition fill :: "PrefetchQueue \<Rightarrow> PrefetchQueue" where
  "fill s =
     (if filling s then s
      else let s1 = fill_loop (s\<lparr>filling := True\<rparr>);
               s2 = s1\<lparr>filling := False\<rparr>
           in if wants_more s2 then s2\<lparr>fillTimers := fillTimers s2 + 1\<rparr> else s2)"

section \<open>The consumer's operations\<close>

text \<open>\<open>cancel(clearQueue)\<close>: every controller of \<open>inFlight\<close> is aborted.\<close>

definition cancel :: "bool \<Rightarrow> PrefetchQueue \<Rightarrow> PrefetchQueue" where
  "cancel clearQueue s =
     (let s1 = s\<lparr>aborted := aborted s \<union> set (inFlight s)\<rparr>;
          s2 = s1\<lparr>inFlight := []\<rparr>
      in if clearQueue then s2\<lparr>queue := []\<rparr> else s2)"

definition same_filters :: "PrefetchFilters \<Rightarrow> PrefetchFilters \<Rightarrow> bool" where
  "same_filters a b \<longleftrightarrow>
     startYear a = startYear b \<and> endYear a = endYear b \<and> language a = language b"

definition setFilters :: "PrefetchFilters \<Rightarrow> PrefetchQueue \<Rightarrow> PrefetchQueue" where
  "setFilters f s =
     (if same_filters (filters s) f then s
      else let s1 = s\<lparr>filters := f\<rparr>;
               s2 = s1\<lparr>seenIds := {}\<rparr>;
               s3 = cancel True s2;
               s4 = fill s3
           in log_pq (LogSetFilters (filters s4)) s4)"

text \<open>
  \<open>setConfig(opts)\<close>: a field of \<open>opts\<close> that is missing is \<open>None\<close>; zero is falsy.
\<close>

definition setConfig :: "real option \<Rightarrow> real option \<Rightarrow> PrefetchQueue \<Rightarrow> PrefetchQueue" where
  "setConfig opt_size opt_concurrency s =
     (let s1 = (case opt_size of
                  Some n \<Rightarrow> if n \<noteq> 0 \<and> n > 0 then s\<lparr>size_cfg := n\<rparr> else s
                | None \<Rightarrow> s);
          s2 = (case opt_concurrency of
                  Some n \<Rightarrow> if n \<noteq> 0 \<and> n > 0 then s1\<lparr>concurrency := n\<rparr> else s1
                | None \<Rightarrow> s1)
      in fill (log_pq (LogSetConfig (size_cfg s2) (concurrency s2)) s2))"

text \<open>
  \<open>next(timeoutMs)\<close> is asynchronous too.  \<open>next_start\<close> is the call up to the reading of
  \<open>start\<close>; the clock value \<open>now\<close> is what \<open>Date.now()\<close> returns there.  The result is the
  movie served at once, or the start time of the waiting loop.
\<close>

definition next_start :: "int \<Rightarrow> PrefetchQueue \<Rightarrow> (MovieResult + int) \<times> PrefetchQueue" where
  "next_start now s =
     (case queue s of
        item # rest \<Rightarrow>
          (let s1 = s\<lparr>queue := rest\<rparr>;
               s2 = s1\<lparr>stats := (stats s1)\<lparr>servedImmediate := servedImmediate (stats s1) + 1\<rparr>\<rparr>;
               s3 = log_pq (LogServeImmediate (movie_id item) (length (queue s2))) s2
           in (Inl item, fill s3))
      | [] \<Rightarrow> (Inr now, fill s))"

text \<open>
  One evaluation of the head of the waiting loop, with the clock reading \<open>now\<close>, and the
  body up to the \<open>await\<close> of the 50 ms timer.  \<open>Resolved None\<close> is the result \<open>null\<close>.
\<close>

definition next_poll ::
  "int \<Rightarrow> int \<Rightarrow> int \<Rightarrow> PrefetchQueue \<Rightarrow> MovieResult option promise \<times> PrefetchQueue" where
  "next_poll start timeoutMs now s =
     (if now - start < timeoutMs
      then (case queue s of
              item # rest \<Rightarrow>
                (let s1 = s\<lparr>queue := rest\<rparr>;
                     s2 = s1\<lparr>stats := (stats s1)\<lparr>servedAfterWait := servedAfterWait (stats s1) + 1\<rparr>\<rparr>;
                     s3 = log_pq (LogServeAfterWait (movie_id item) (length (queue s2))) s2
                 in (Resolved (Some item), fill s3))
            | [] \<Rightarrow> (Pending, s))
      else (Resolved None,
            log_pq LogTimeout (s\<lparr>stats := (stats s)\<lparr>timeouts := timeouts (stats s) + 1\<rparr>\<rparr>)))"

text \<open>
  The waiting loop when nothing else runs in between: \<open>clock\<close> lists the readings of
  \<open>Date.now()\<close> at the successive evaluations of the loop head.  The call is still
  \<open>Pending\<close> when the readings are used up.
\<close>

fun next_wait ::
  "int \<Rightarrow> int \<Rightarrow> int list \<Rightarrow> PrefetchQueue \<Rightarrow> MovieResult option promise \<times> PrefetchQueue" where
  "next_wait start timeoutMs [] s = (Pending, s)"
| "next_wait start timeoutMs (now # clock) s =
     (case next_poll start timeoutMs now s of
        (Pending, s') \<Rightarrow> next_wait start timeoutMs clock s'
      | (Resolved r, s') \<Rightarrow> (Resolved r, s'))"

text \<open>
  A whole call \<open>next(timeoutMs)\<close> with no other activity in between: \<open>now\<close> is the reading
  stored in \<open>start\<close>.
\<close>

definition next_call ::
  "int \<Rightarrow> int \<Rightarrow> int list \<Rightarrow> PrefetchQueue \<Rightarrow> MovieResult option promise \<times> PrefetchQueue" where
  "next_call timeoutMs now clock s =
     (case next_start now s of
        (Inl item, s') \<Rightarrow> (Resolved (Some item), s')
      | (Inr start, s') \<Rightarrow> next_wait start timeoutMs clock s')"

section \<open>Executions\<close>

text \<open>
  The program is single threaded: between two suspension points a piece of code runs
  alone.  An execution is a sequence of events, each of which runs one such piece: a call
  of a public method, one evaluation of the waiting loop of a suspended \<open>next\<close>, the
  resumption of a suspended \<open>fillOne\<close>, and the timer callback of \<open>fill\<close>.

  The environment is not restricted: the Supplier may answer any outstanding call with any
  outcome, also a call whose controller has been aborted (the queue never looks at the
  abort flag itself), and the waiting loop of \<open>next\<close> may be evaluated with any start time,
  timeout and clock reading.  An event for an invocation that does not exist, or that waits
  for something else, changes nothing.
\<close>

datatype event =
    Fill
  | FillTimer
  | SetConfig "real option" "real option"
  | SetFilters PrefetchFilters
  | Cancel bool
  | ResetStats
  | Next int
  | Poll int int int
  | Settled nat supplier_outcome real
  | BackoffOver nat

fun step :: "event \<Rightarrow> PrefetchQueue \<Rightarrow> PrefetchQueue" where
  "step Fill s = fill s"
| "step FillTimer s =
     (if fillTimers s = 0 then s else fill (s\<lparr>fillTimers := fillTimers s - 1\<rparr>))"
| "step (SetConfig opt_size opt_concurrency) s = setConfig opt_size opt_concurrency s"
| "step (SetFilters f) s = setFilters f s"
| "step (Cancel clearQueue) s = cancel clearQueue s"
| "step ResetStats s = resetStats s"
| "step (Next now) s = snd (next_start now s)"
| "step (Poll start timeoutMs now) s = snd (next_poll start timeoutMs now s)"
| "step (Settled c out rnd) s = fillOne_settled c out rnd s"
| "step (BackoffOver c) s = fillOne_timer c s"

fun run :: "event list \<Rightarrow> PrefetchQueue \<Rightarrow> PrefetchQueue" where
  "run [] s = s"
| "run (e # es) s = run es (step e s)"

text \<open>
  The identifiers pushed into the queue are those of the \<open>queued\<close> entries of the log:
  \<open>fillOne\<close> writes such an entry right after each \<open>queue.push\<close>, and nowhere else.
  \<open>pushed_ids es s\<close> lists the identifiers pushed during the execution \<open>es\<close> from \<open>s\<close>.
\<close>

fun queued_ids :: "log_entry list \<Rightarrow> int list" where
  "queued_ids [] = []"
| "queued_ids (LogQueued i q # es) = i # queued_ids es"
| "queued_ids (e # es) = queued_ids es"

definition new_entries :: "PrefetchQueue \<Rightarrow> PrefetchQueue \<Rightarrow> log_entry list" where
  "new_entries s s' = drop (length (logged s)) (logged s')"

definition pushed_ids :: "event list \<Rightarrow> PrefetchQueue \<Rightarrow> int list" where
  "pushed_ids es s = queued_ids (new_entries s (run es s))"

text \<open>
  A filter epoch is an execution in which no call of \<open>setFilters\<close> changes the filters.
\<close>

fun changes_filters :: "event \<Rightarrow> PrefetchQueue \<Rightarrow> bool" where
  "changes_filters (SetFilters f) s = (\<not> same_filters (filters s) f)"
| "changes_filters e s = False"

fun one_epoch :: "event list \<Rightarrow> PrefetchQueue \<Rightarrow> bool" where
  "one_epoch [] s = True"
| "one_epoch (e # es) s = (\<not> changes_filters e s \<and> one_epoch es (step e s))"






text \<open>The buffer is at rest: no fill cycle is active or scheduled, no attempt is running.\<close>

definition at_rest :: "PrefetchQueue \<Rightarrow> bool" where
  "at_rest s \<longleftrightarrow> \<not> filling s \<and> fillTimers s = 0 \<and> inFlight s = [] \<and> frames s = []"


section \<open>Predicates used in the proofs\<close>


text \<open>
  From \<open>s\<close> to \<open>s'\<close> the log has only grown, no seen identifier was forgotten, and the
  identifiers pushed in between are pairwise different, were not seen in \<open>s\<close> and are seen
  in \<open>s'\<close>.
\<close>

definition pushes_ok :: "PrefetchQueue \<Rightarrow> PrefetchQueue \<Rightarrow> bool" where
  "pushes_ok s s' \<longleftrightarrow>
     (\<exists>ext. logged s' = logged s @ ext \<and> seenIds s \<subseteq> seenIds s' \<and>
        distinct (queued_ids ext) \<and> set (queued_ids ext) \<inter> seenIds s = {} \<and>
        set (queued_ids ext) \<subseteq> seenIds s')"



section \<open>Sample data\<close>

definition movieA :: MovieResult where
  "movieA = \<lparr>movie_title = ''Alien'', movie_id = 1, release_year = ''1979'',
              imdb_rating = Some ''8.5'', trailer_link = ''https://youtu.be/a''\<rparr>"

definition movieB :: MovieResult where
  "movieB = \<lparr>movie_title = ''Brazil'', movie_id = 2, release_year = ''1985'',
              imdb_rating = Some ''7.9'', trailer_link = ''https://youtu.be/b''\<rparr>"

definition movieC :: MovieResult where
  "movieC = \<lparr>movie_title = ''Casablanca'', movie_id = 3, release_year = ''1942'',
              imdb_rating = Some ''8.5'', trailer_link = ''https://youtu.be/c''\<rparr>"

definition movieD :: MovieResult where
  "movieD = \<lparr>movie_title = ''Dune'', movie_id = 4, release_year = ''2021'',
              imdb_rating = Some ''8.0'', trailer_link = ''https://youtu.be/d''\<rparr>"

definition nineties :: PrefetchFilters where
  "nineties = \<lparr>startYear = Some 1990, endYear = Some 1999, language = None\<rparr>"

text \<open>
  The singleton after \<open>fill()\<close> and the arrival of the first movie: one movie queued, one
  Supplier call outstanding.
\<close>

definition warm :: PrefetchQueue where
  "warm = run [Fill, Settled 0 (Candidate movieA) 0] prefetchQueue"

text \<open>
  Two concurrent attempts receive the same movie; later two more attempts receive a new
  movie and the first one again.
\<close>

definition repeats :: "event list" where
  "repeats = [Fill, Settled 0 (Candidate movieA) 0, Settled 1 (Candidate movieA) 0,
              Settled 1 (Candidate movieB) 0, Fill, Settled 2 (Candidate movieC) 0,
              Settled 3 (Candidate movieA) 0]"

text \<open>
  The queue holds two of three movies, a fill cycle starts two attempts, both bring a new
  movie.
\<close>

definition overfill :: "event list" where
  "overfill = [Fill, Settled 0 (Candidate movieA) 0, Settled 1 (Candidate movieB) 0, Fill,
               Settled 2 (Candidate movieC) 0, Settled 3 (Candidate movieD) 0]"





text \<open>After a cancel, two new attempts: one brings a movie seen before, one a new movie.\<close>

definition after_cancel :: "event list" where
  "after_cancel = [Fill, Settled 2 (Candidate movieA) 0, Settled 3 (Candidate movieB) 0]"

section \<open>Basic facts\<close>

declare fill_loop.simps [simp del]

lemmas model_defs =
  prefetchQueue_def new_PrefetchQueue_def zero_stats_def empty_filters_def
  fill_def fill_loop.simps wants_more_def note_inFlight_def
  fillOne_def fillOne_loop_def fillOne_finally_def fillOne_settled_def fillOne_timer_def
  accept_def log_pq_def maxAttempts_def Let_def
  movieA_def movieB_def movieC_def movieD_def nineties_def

lemma warm_eq:
  "warm = \<lparr>size_cfg = 3, concurrency = 2, queue = [movieA], seenIds = {1}, inFlight = [1],
            filling = False,
            stats = \<lparr>queued = 1, servedImmediate = 0, servedAfterWait = 0, timeouts = 0,
                      inFlightMax = 2\<rparr>,
            filters = empty_filters,
            frames = [(1, \<lparr>attempt = 1, waits_for = Supplier\<rparr>)], aborted = {},
            nextController = 2, fillTimers = 0, logged = [LogQueued 1 1]\<rparr>"
  by (simp add: warm_def model_defs)

lemmas run_defs = model_defs setConfig_def next_start_def next_poll_def cancel_def
  resetStats_def jitter_of_def backoff_delay_def

lemma repeats_eq:
  "logged (run repeats prefetchQueue) = [LogQueued 1 1, LogQueued 2 2, LogQueued 3 3]"
  "logged prefetchQueue = []"
  by (simp_all add: repeats_def run_defs)

lemma overfill_eq:
  "queue (run overfill prefetchQueue) = [movieA, movieB, movieC, movieD]"
  "inFlight (run overfill prefetchQueue) = []"
  "frames (run overfill prefetchQueue) = []"
  "filling (run overfill prefetchQueue) = False"
  "fillTimers (run overfill prefetchQueue) = 0"
  "size_cfg (run overfill prefetchQueue) = 3"
  by (simp_all add: overfill_def run_defs)





lemma after_cancel_eq:
  "logged (run after_cancel (cancel False warm)) = [LogQueued 1 1, LogQueued 2 2]"
  by (simp add: after_cancel_def warm_eq run_defs)

lemma same_filters_eq: "same_filters a b \<longleftrightarrow> a = b"
  by (cases a, cases b) (auto simp: same_filters_def)

lemma fillOne_wants_more:
  "wants_more s \<Longrightarrow>
     fillOne s = s\<lparr>nextController := nextController s + 1,
                   inFlight := inFlight s @ [nextController s],
                   frames := AList.update (nextController s)
                     \<lparr>attempt = 1, waits_for = Supplier\<rparr> (frames s)\<rparr>"
  by (simp add: wants_more_def fillOne_def fillOne_loop_def maxAttempts_def Let_def)

subsection \<open>What a fill cycle changes\<close>

text \<open>
  A fill cycle only starts Supplier calls: it touches \<open>inFlight\<close>, the frames, the
  controller counter and the peak counter, and nothing else.
\<close>

lemma fill_loop_fields [simp]:
  "queue (fill_loop s) = queue s"
  "seenIds (fill_loop s) = seenIds s"
  "logged (fill_loop s) = logged s"
  "filters (fill_loop s) = filters s"
  "size_cfg (fill_loop s) = size_cfg s"
  "concurrency (fill_loop s) = concurrency s"
  "aborted (fill_loop s) = aborted s"
  "filling (fill_loop s) = filling s"
  "fillTimers (fill_loop s) = fillTimers s"
  by (induction s rule: fill_loop.induct;
      subst fill_loop.simps; simp add: fillOne_wants_more note_inFlight_def)+

lemma fill_loop_stats [simp]:
  "queued (stats (fill_loop s)) = queued (stats s)"
  "servedImmediate (stats (fill_loop s)) = servedImmediate (stats s)"
  "servedAfterWait (stats (fill_loop s)) = servedAfterWait (stats s)"
  "timeouts (stats (fill_loop s)) = timeouts (stats s)"
  by (induction s rule: fill_loop.induct;
      subst fill_loop.simps; simp add: fillOne_wants_more note_inFlight_def)+

lemma fill_loop_done: "\<not> wants_more (fill_loop s)"
  by (induction s rule: fill_loop.induct) (subst fill_loop.simps, simp)

lemma fill_loop_inFlight:
  "\<exists>new. inFlight (fill_loop s) = inFlight s @ new \<and>
         set new \<subseteq> {nextController s ..< nextController (fill_loop s)} \<and>
         nextController s \<le> nextController (fill_loop s)"
proof (induction s rule: fill_loop.induct)
  case (1 s)
  show ?case
  proof (cases "wants_more s")
    case True
    from 1 [OF True] obtain new where
      new: "inFlight (fill_loop (note_inFlight (fillOne s))) = inFlight (note_inFlight (fillOne s)) @ new"
        "set new \<subseteq> {nextController (note_inFlight (fillOne s)) ..<
           nextController (fill_loop (note_inFlight (fillOne s)))}"
        "nextController (note_inFlight (fillOne s)) \<le>
           nextController (fill_loop (note_inFlight (fillOne s)))"
      by blast
    have eq: "fill_loop s = fill_loop (note_inFlight (fillOne s))"
      using True by (subst fill_loop.simps) simp
    have "nextController (note_inFlight (fillOne s)) = nextController s + 1"
      and "inFlight (note_inFlight (fillOne s)) = inFlight s @ [nextController s]"
      using True by (simp_all add: fillOne_wants_more note_inFlight_def)
    with new have "inFlight (fill_loop s) = inFlight s @ (nextController s # new)"
      and "set (nextController s # new) \<subseteq> {nextController s ..< nextController (fill_loop s)}"
      and "nextController s \<le> nextController (fill_loop s)"
      using eq by auto
    then show ?thesis by blast
  next
    case False
    then have "fill_loop s = s" by (subst fill_loop.simps) simp
    then show ?thesis by simp
  qed
qed




lemma wants_more_filling [simp]: "wants_more (s\<lparr>filling := b\<rparr>) = wants_more s"
  by (simp add: wants_more_def)

lemma fill_unfold:
  "fill s = (if filling s then s else (fill_loop (s\<lparr>filling := True\<rparr>))\<lparr>filling := False\<rparr>)"
proof -
  have "\<not> wants_more ((fill_loop (s\<lparr>filling := True\<rparr>))\<lparr>filling := False\<rparr>)"
    using fill_loop_done [of "s\<lparr>filling := True\<rparr>"] by simp
  then show ?thesis by (simp add: fill_def Let_def)
qed

lemma fill_fields [simp]:
  "queue (fill s) = queue s"
  "seenIds (fill s) = seenIds s"
  "logged (fill s) = logged s"
  "filters (fill s) = filters s"
  "size_cfg (fill s) = size_cfg s"
  "concurrency (fill s) = concurrency s"
  "aborted (fill s) = aborted s"
  "filling (fill s) = filling s"
  "fillTimers (fill s) = fillTimers s"
  by (simp_all add: fill_unfold)

lemma fill_stats [simp]:
  "queued (stats (fill s)) = queued (stats s)"
  "servedImmediate (stats (fill s)) = servedImmediate (stats s)"
  "servedAfterWait (stats (fill s)) = servedAfterWait (stats s)"
  "timeouts (stats (fill s)) = timeouts (stats s)"
  by (simp_all add: fill_unfold)

lemma fill_inFlight:
  "\<exists>new. inFlight (fill s) = inFlight s @ new \<and>
         set new \<subseteq> {nextController s ..< nextController (fill s)} \<and>
         nextController s \<le> nextController (fill s)"
  using fill_loop_inFlight [of "s\<lparr>filling := True\<rparr>"] by (auto simp: fill_unfold)


lemma cancel_fields [simp]:
  "seenIds (cancel b s) = seenIds s"
  "filters (cancel b s) = filters s"
  "stats (cancel b s) = stats s"
  "inFlight (cancel b s) = []"
  "queue (cancel b s) = (if b then [] else queue s)"
  "aborted (cancel b s) = aborted s \<union> set (inFlight s)"
  "logged (cancel b s) = logged s"
  "size_cfg (cancel b s) = size_cfg s"
  "concurrency (cancel b s) = concurrency s"
  "frames (cancel b s) = frames s"
  "nextController (cancel b s) = nextController s"
  by (simp_all add: cancel_def Let_def)

section \<open>Changing the filters\<close>

text \<open>
  Claim C8.  Calling \<open>setFilters\<close> with filters that have the same \<open>startYear\<close>,
  \<open>endYear\<close> and \<open>language\<close> as the current ones changes nothing at all: the whole state
  of the queue (filters, seen identifiers, queue, in-flight set, statistics, aborted
  controllers, suspended fetch attempts, pending timers) is the state before the call, so
  nothing is cancelled and no fill cycle is started.
\<close>

theorem setFilters_same_noop:
  "same_filters (filters s) f \<Longrightarrow> setFilters f s = s"
  by (simp add: setFilters_def)

theorem setFilters_same_noop_witness:
  "same_filters (filters warm) empty_filters \<and> setFilters empty_filters warm = warm"
proof -
  have h: "same_filters (filters warm) empty_filters"
    by (simp add: warm_eq same_filters_def)
  show ?thesis using h setFilters_same_noop [OF h] by simp
qed

text \<open>
  Claim C1, as the specification states it, says that a call of \<open>setFilters\<close> with
  different filters leaves the queued movies alone.  The code calls \<open>cancel(true)\<close>, which
  empties the queue: in the state \<open>warm\<close> one movie is queued, and after the filters are
  set to the nineties the queue is not what it was.
\<close>

theorem setFilters_keeps_queue_counterexample:
  "\<not> same_filters (filters warm) nineties \<and> queue (setFilters nineties warm) \<noteq> queue warm"
  by (simp add: warm_eq same_filters_def setFilters_def empty_filters_def nineties_def
      log_pq_def)

text \<open>
  Claim C1, amended.  When \<open>setFilters\<close> is called with filters that differ from the
  current ones, the filters are replaced by the new ones, the set of seen identifiers is
  cleared, every Supplier call that was in flight is aborted, the in-flight set afterwards
  is what the fill cycle that follows starts from an empty in-flight set (controllers
  handed out after the call began), and the queue is emptied.
\<close>

theorem setFilters_changed:
  assumes "\<not> same_filters (filters s) f"
  shows "filters (setFilters f s) = f \<and> seenIds (setFilters f s) = {} \<and>
         set (inFlight s) \<subseteq> aborted (setFilters f s) \<and>
         inFlight (setFilters f s) =
           inFlight (fill (s\<lparr>filters := f, seenIds := {}, aborted := aborted s \<union> set (inFlight s),
                               inFlight := [], queue := []\<rparr>)) \<and>
         (\<forall>c\<in>set (inFlight (setFilters f s)). nextController s \<le> c) \<and>
         queue (setFilters f s) = []"
proof -
  let ?s3 = "cancel True (s\<lparr>filters := f, seenIds := {}\<rparr>)"
  have eq: "setFilters f s = log_pq (LogSetFilters f) (fill ?s3)"
    using assms by (simp add: setFilters_def Let_def)
  have s3: "?s3 = s\<lparr>filters := f, seenIds := {}, aborted := aborted s \<union> set (inFlight s),
                     inFlight := [], queue := []\<rparr>"
    by (simp add: cancel_def Let_def)
  obtain new where new: "inFlight (fill ?s3) = inFlight ?s3 @ new"
    "set new \<subseteq> {nextController ?s3 ..< nextController (fill ?s3)}"
    using fill_inFlight [of ?s3] by blast
  then have "\<forall>c\<in>set (inFlight (fill ?s3)). nextController s \<le> c" by auto
  moreover have "inFlight (setFilters f s) = inFlight (fill ?s3)"
    unfolding eq by (simp add: log_pq_def)
  ultimately show ?thesis
    unfolding eq s3 [symmetric] by (simp add: log_pq_def)
qed

theorem setFilters_changed_witness:
  "\<not> same_filters (filters warm) nineties \<and>
   filters (setFilters nineties warm) = nineties \<and>
   seenIds (setFilters nineties warm) = {} \<and>
   set (inFlight warm) \<subseteq> aborted (setFilters nineties warm) \<and>
   queue (setFilters nineties warm) = []"
proof -
  have h: "\<not> same_filters (filters warm) nineties"
    by (simp add: warm_eq same_filters_def empty_filters_def nineties_def)
  show ?thesis using h setFilters_changed [OF h] by simp
qed

section \<open>Backoff\<close>

lemma jitter_bounds: "0 \<le> rnd \<Longrightarrow> rnd < 1 \<Longrightarrow> 0 \<le> jitter_of rnd \<and> jitter_of rnd < 80"
proof -
  assume a: "0 \<le> rnd" "rnd < 1"
  have "0 \<le> \<lfloor>rnd * 80\<rfloor>" using a by simp
  moreover have "of_int \<lfloor>rnd * 80\<rfloor> \<le> rnd * 80" by simp
  ultimately show ?thesis using a by (simp add: jitter_of_def)
qed

text \<open>
  Claim C7.  For every attempt number \<open>n \<ge> 1\<close> and every value \<open>rnd\<close> of the random source
  in \<open>[0, 1)\<close>, the delay is \<open>min(1500, 120 * 1.6^n + jitter)\<close> with a jitter in \<open>[0, 80)\<close>;
  the delay before the cap is at least \<open>120 * 1.6^n\<close> and less than \<open>120 * 1.6^n + 80\<close>;
  the delay is at most 1500; and the delay of attempt \<open>n + 1\<close> is never smaller than the
  delay of attempt \<open>n\<close>, whatever the two jitters are.  The arithmetic is that of the real
  numbers.
\<close>

theorem backoff_delay_bounds:
  assumes "1 \<le> n" "0 \<le> rnd" "rnd < 1" "0 \<le> rnd'" "rnd' < 1"
  shows "backoff_delay n rnd = min 1500 (120 * 1.6 ^ n + jitter_of rnd) \<and>
         0 \<le> jitter_of rnd \<and> jitter_of rnd < 80 \<and>
         120 * 1.6 ^ n \<le> 120 * 1.6 ^ n + jitter_of rnd \<and>
         120 * 1.6 ^ n + jitter_of rnd < 120 * 1.6 ^ n + 80 \<and>
         backoff_delay n rnd \<le> 1500 \<and>
         backoff_delay n rnd \<le> backoff_delay (n + 1) rnd'"
proof -
  have j: "0 \<le> jitter_of rnd" "jitter_of rnd < 80" "0 \<le> jitter_of rnd'"
    using jitter_bounds assms by auto
  have "(1.6::real) ^ 1 \<le> 1.6 ^ n"
    using assms(1) by (intro power_increasing) auto
  then have p: "(1.6::real) \<le> 1.6 ^ n" by simp
  have "120 * 1.6 ^ n + jitter_of rnd \<le> 120 * (1.6::real) ^ (n + 1) + jitter_of rnd'"
    using j p by simp
  then have "backoff_delay n rnd \<le> backoff_delay (n + 1) rnd'"
    unfolding backoff_delay_def by (rule min.mono [OF order_refl])
  then show ?thesis using j by (simp add: backoff_delay_def)
qed

theorem backoff_delay_bounds_witness:
  "(1::nat) \<le> 2 \<and> (0::real) \<le> 1 / 2 \<and> (1 / 2 :: real) < 1 \<and>
   backoff_delay 2 (1 / 2) \<le> 1500 \<and> backoff_delay 2 (1 / 2) \<le> backoff_delay 3 (1 / 4)"
  using backoff_delay_bounds [of 2 "1 / 2" "1 / 4"] by simp

section \<open>Serving\<close>

lemma next_call_nonempty:
  "queue s = item # rest \<Longrightarrow>
   fst (next_call timeoutMs now clock s) = Resolved (Some item) \<and>
   queue (snd (next_call timeoutMs now clock s)) = rest"
  by (simp add: next_call_def next_start_def Let_def log_pq_def)

lemma accept_queue: "queue (accept m s) = queue s @ [m]"
  by (simp add: accept_def Let_def log_pq_def)

text \<open>
  Claim C6.  Movies are served in the order in which they were pushed: when \<open>A\<close>, \<open>B\<close> and
  \<open>C\<close> are pushed in that order into an empty queue, the next three calls of \<open>next\<close>, with
  no push in between, return \<open>A\<close>, then \<open>B\<close>, then \<open>C\<close>, whatever their timeouts and clock
  readings are.  A push is what \<open>fillOne\<close> does with a novel candidate: the movie goes
  to the end of the queue.
\<close>

theorem fifo_order:
  assumes "queue s = []"
  shows "(let s3 = accept C (accept B (accept A s));
              (r1, s4) = next_call t1 n1 c1 s3;
              (r2, s5) = next_call t2 n2 c2 s4;
              (r3, s6) = next_call t3 n3 c3 s5
          in r1 = Resolved (Some A) \<and> r2 = Resolved (Some B) \<and> r3 = Resolved (Some C)) \<and>
         (map_of (frames u) c = Some fr \<and> waits_for fr = Supplier \<and> movie_id m \<notin> seenIds u \<longrightarrow>
            fillOne_settled c (Candidate m) rnd u = fillOne_finally c (accept m u) \<and>
            queue (fillOne_finally c (accept m u)) = queue u @ [m])"
proof -
  let ?s3 = "accept C (accept B (accept A s))"
  have q3: "queue ?s3 = [A, B, C]" using assms by (simp add: accept_queue)
  let ?p1 = "next_call t1 n1 c1 ?s3"
  have 1: "fst ?p1 = Resolved (Some A)" "queue (snd ?p1) = [B, C]"
    using next_call_nonempty [OF q3] by simp_all
  let ?p2 = "next_call t2 n2 c2 (snd ?p1)"
  have 2: "fst ?p2 = Resolved (Some B)" "queue (snd ?p2) = [C]"
    using next_call_nonempty [OF 1(2)] by simp_all
  let ?p3 = "next_call t3 n3 c3 (snd ?p2)"
  have 3: "fst ?p3 = Resolved (Some C)"
    using next_call_nonempty [OF 2(2)] by simp_all
  have "map_of (frames u) c = Some fr \<and> waits_for fr = Supplier \<and> movie_id m \<notin> seenIds u \<longrightarrow>
            fillOne_settled c (Candidate m) rnd u = fillOne_finally c (accept m u) \<and>
            queue (fillOne_finally c (accept m u)) = queue u @ [m]"
    by (simp add: fillOne_settled_def fillOne_finally_def accept_queue)
  then show ?thesis using 1 2 3 by (simp add: Let_def split_beta)
qed

theorem fifo_order_witness:
  "queue prefetchQueue = [] \<and>
   (let s3 = accept movieC (accept movieB (accept movieA prefetchQueue));
        (r1, s4) = next_call 8000 0 [] s3;
        (r2, s5) = next_call 8000 10 [] s4;
        (r3, s6) = next_call 8000 20 [] s5
    in r1 = Resolved (Some movieA) \<and> r2 = Resolved (Some movieB) \<and> r3 = Resolved (Some movieC)) \<and>
   movie_id movieB \<notin> seenIds warm \<and>
   queue (fillOne_settled 1 (Candidate movieB) 0 warm) = [movieA, movieB]"
proof -
  have h: "queue prefetchQueue = []"
    by (simp add: prefetchQueue_def new_PrefetchQueue_def)
  have b: "map_of (frames warm) 1 = Some \<lparr>attempt = 1, waits_for = Supplier\<rparr>"
    "waits_for \<lparr>attempt = 1, waits_for = Supplier\<rparr> = Supplier"
    "movie_id movieB \<notin> seenIds warm" "queue warm = [movieA]"
    by (simp_all add: warm_eq movieB_def)
  show ?thesis
    using h b fifo_order [OF h, of movieC movieB movieA 8000 0 "[]" 8000 10 "[]" 8000 20 "[]"
        warm 1 "\<lparr>attempt = 1, waits_for = Supplier\<rparr>" movieB 0]
    by simp
qed

lemma next_wait_pending:
  "queue s = [] \<Longrightarrow> \<forall>t\<in>set clock. t - start < timeoutMs \<Longrightarrow>
   next_wait start timeoutMs clock s = (Pending, s)"
  by (induction clock) (simp_all add: next_poll_def)

lemma next_wait_timeout:
  "queue s = [] \<Longrightarrow> \<forall>t\<in>set pre. t - start < timeoutMs \<Longrightarrow> timeoutMs \<le> t1 - start \<Longrightarrow>
   next_wait start timeoutMs (pre @ t1 # post) s =
     (Resolved None, log_pq LogTimeout (s\<lparr>stats := (stats s)\<lparr>timeouts := timeouts (stats s) + 1\<rparr>\<rparr>))"
  by (induction pre) (simp_all add: next_poll_def)

text \<open>
  Claim C5.  Take a call \<open>next(timeoutMs)\<close> on an empty queue during which no movie
  arrives, \<open>now\<close> being the time at which the call starts to wait.  As long as every clock
  reading of the waiting loop is less than \<open>timeoutMs\<close> after \<open>now\<close>, the call has not
  returned.  At the first reading \<open>t1\<close> that is \<open>timeoutMs\<close> or more after \<open>now\<close>, the call
  returns \<open>null\<close> (there is no failing branch), the counter \<open>timeouts\<close> has grown by exactly
  one, no controller has been aborted, every call that was in flight before is in flight
  still, and the in-flight set is the one the initial \<open>fill()\<close> of the call left.  Also when
  other code runs between the evaluations of the waiting loop: in any state \<open>u\<close> with an
  empty queue, one evaluation leaves the in-flight set and the aborted controllers as they
  are, goes on waiting exactly when the deadline has not passed, and otherwise adds one to
  \<open>timeouts\<close>.
\<close>

theorem next_timeout:
  assumes "queue s = []"
    and "\<forall>t\<in>set pre. t - now < timeoutMs"
    and "timeoutMs \<le> t1 - now"
  shows "fst (next_call timeoutMs now pre s) = Pending \<and>
         (let (r, s') = next_call timeoutMs now (pre @ t1 # post) s
          in r = Resolved None \<and>
             timeouts (stats s') = timeouts (stats s) + 1 \<and>
             inFlight s' = inFlight (fill s) \<and>
             prefix (inFlight s) (inFlight s') \<and>
             aborted s' = aborted s \<and>
             queue s' = []) \<and>
         (queue u = [] \<longrightarrow>
            inFlight (snd (next_poll start limit reading u)) = inFlight u \<and>
            aborted (snd (next_poll start limit reading u)) = aborted u \<and>
            (fst (next_poll start limit reading u) = Pending \<longleftrightarrow> reading - start < limit) \<and>
            (fst (next_poll start limit reading u) = Resolved None \<longleftrightarrow> limit \<le> reading - start) \<and>
            timeouts (stats (snd (next_poll start limit reading u))) =
              timeouts (stats u) + (if reading - start < limit then 0 else 1))"
proof -
  have q: "queue (fill s) = []" using assms(1) by simp
  have "next_call timeoutMs now pre s = (Pending, fill s)"
    using assms(1) next_wait_pending [OF q assms(2)]
    by (simp add: next_call_def next_start_def)
  moreover have "next_call timeoutMs now (pre @ t1 # post) s =
      (Resolved None,
       log_pq LogTimeout
         ((fill s)\<lparr>stats := (stats (fill s))\<lparr>timeouts := timeouts (stats (fill s)) + 1\<rparr>\<rparr>))"
    using assms(1) next_wait_timeout [OF q assms(2,3)]
    by (simp add: next_call_def next_start_def)
  moreover have "prefix (inFlight s) (inFlight (fill s))"
    using fill_inFlight [of s] by (auto simp: prefix_def)
  ultimately show ?thesis
    using assms(1) by (auto simp: log_pq_def next_poll_def)
qed

theorem next_timeout_witness:
  "queue prefetchQueue = [] \<and> (0::int) - 0 < 100 \<and> (50::int) - 0 < 100 \<and>
   (100::int) \<le> 100 - 0 \<and>
   fst (next_call 100 0 [0, 50] prefetchQueue) = Pending \<and>
   fst (next_call 100 0 ([0, 50] @ 100 # [150]) prefetchQueue) = Resolved None \<and>
   timeouts (stats (snd (next_call 100 0 ([0, 50] @ 100 # [150]) prefetchQueue))) = 1 \<and>
   inFlight (snd (next_poll 0 100 100 prefetchQueue)) = inFlight prefetchQueue"
proof -
  have h: "queue prefetchQueue = []" "timeouts (stats prefetchQueue) = 0"
    by (simp_all add: prefetchQueue_def new_PrefetchQueue_def zero_stats_def)
  have c: "\<forall>t\<in>set [0, 50]. t - 0 < (100::int)" "(100::int) \<le> 100 - 0"
    by simp_all
  show ?thesis
    using h c next_timeout [OF h(1) c, of "[150]" prefetchQueue 0 100 100]
    by (simp add: split_beta)
qed

section \<open>Invariants of executions\<close>

subsection \<open>The concurrency limit\<close>

lemma fillOne_loop_fields [simp]:
  "queue (fillOne_loop c n s) = queue s"
  "seenIds (fillOne_loop c n s) = seenIds s"
  "logged (fillOne_loop c n s) = logged s"
  "concurrency (fillOne_loop c n s) = concurrency s"
  "size_cfg (fillOne_loop c n s) = size_cfg s"
  "nextController (fillOne_loop c n s) = nextController s"
  "stats (fillOne_loop c n s) = stats s"
  by (simp_all add: fillOne_loop_def fillOne_finally_def)





lemma settled_concurrency [simp]:
  "concurrency (fillOne_settled c out rnd s) = concurrency s"
  by (auto simp: fillOne_settled_def fillOne_finally_def accept_def log_pq_def Let_def
      split: option.splits awaited.splits supplier_outcome.splits)


lemma timer_concurrency [simp]: "concurrency (fillOne_timer c s) = concurrency s"
  by (auto simp: fillOne_timer_def split: option.splits awaited.splits)





subsection \<open>Suspended invocations\<close>











subsection \<open>Pushes and seen identifiers\<close>

lemma queued_ids_append: "queued_ids (xs @ ys) = queued_ids xs @ queued_ids ys"
  by (induction xs rule: queued_ids.induct) simp_all

lemma pushes_okI:
  "logged s' = logged s @ ext \<Longrightarrow> queued_ids ext = [] \<Longrightarrow> seenIds s' = seenIds s \<Longrightarrow>
   pushes_ok s s'"
  by (auto simp: pushes_ok_def)

lemma pushes_ok_refl: "pushes_ok s s"
  by (rule pushes_okI [of _ _ "[]"]) simp_all

lemma pushes_ok_trans:
  assumes "pushes_ok s s'" "pushes_ok s' s''"
  shows "pushes_ok s s''"
proof -
  from assms(1) obtain e1 where 1: "logged s' = logged s @ e1" "seenIds s \<subseteq> seenIds s'"
    "distinct (queued_ids e1)" "set (queued_ids e1) \<inter> seenIds s = {}"
    "set (queued_ids e1) \<subseteq> seenIds s'"
    unfolding pushes_ok_def by blast
  from assms(2) obtain e2 where 2: "logged s'' = logged s' @ e2" "seenIds s' \<subseteq> seenIds s''"
    "distinct (queued_ids e2)" "set (queued_ids e2) \<inter> seenIds s' = {}"
    "set (queued_ids e2) \<subseteq> seenIds s''"
    unfolding pushes_ok_def by blast
  have "logged s'' = logged s @ (e1 @ e2)" using 1(1) 2(1) by simp
  moreover have "seenIds s \<subseteq> seenIds s''" using 1(2) 2(2) by blast
  moreover have "distinct (queued_ids (e1 @ e2))"
    using 1(3,5) 2(3,4) by (auto simp: queued_ids_append)
  moreover have "set (queued_ids (e1 @ e2)) \<inter> seenIds s = {}"
    using 1(2,4) 2(4) by (auto simp: queued_ids_append)
  moreover have "set (queued_ids (e1 @ e2)) \<subseteq> seenIds s''"
    using 1(5) 2(2,5) by (auto simp: queued_ids_append)
  ultimately show ?thesis unfolding pushes_ok_def by blast
qed

lemma settled_pushes: "pushes_ok s (fillOne_settled c out rnd s)"
proof (cases "\<exists>fr m. map_of (frames s) c = Some fr \<and> waits_for fr = Supplier \<and>
    out = Candidate m \<and> movie_id m \<notin> seenIds s")
  case True
  then obtain fr m where h: "map_of (frames s) c = Some fr" "waits_for fr = Supplier"
    "out = Candidate m" "movie_id m \<notin> seenIds s" by blast
  then have "fillOne_settled c out rnd s = fillOne_finally c (accept m s)"
    by (simp add: fillOne_settled_def)
  then have "logged (fillOne_settled c out rnd s) =
      logged s @ [LogQueued (movie_id m) (length (queue s) + 1)]"
    and "seenIds (fillOne_settled c out rnd s) = insert (movie_id m) (seenIds s)"
    by (simp_all add: fillOne_finally_def accept_def log_pq_def Let_def)
  then show ?thesis using h(4) unfolding pushes_ok_def by auto
next
  case False
  then have "logged (fillOne_settled c out rnd s) = logged s @ []"
    and "seenIds (fillOne_settled c out rnd s) = seenIds s"
    by (auto simp: fillOne_settled_def fillOne_finally_def
        split: option.splits awaited.splits supplier_outcome.splits)
  then show ?thesis by (auto intro: pushes_okI [of _ _ "[]"])
qed

lemma timer_pushes: "pushes_ok s (fillOne_timer c s)"
  by (rule pushes_okI [of _ _ "[]"])
     (auto simp: fillOne_timer_def split: option.splits awaited.splits)

lemma step_pushes: "\<not> changes_filters e s \<Longrightarrow> pushes_ok s (step e s)"
proof (cases e)
  case Fill
  then show ?thesis by (simp add: pushes_okI [of _ _ "[]"])
next
  case FillTimer
  then show ?thesis by (simp add: pushes_okI [of _ _ "[]"])
next
  case (SetConfig a b)
  then show ?thesis
    by (auto simp: setConfig_def Let_def log_pq_def split: option.splits
        intro!: pushes_okI [of _ _ "[LogSetConfig x y]" for x y])
next
  case (SetFilters f)
  assume "\<not> changes_filters e s"
  then show ?thesis using SetFilters by (simp add: setFilters_def pushes_ok_refl)
next
  case (Cancel b)
  then show ?thesis by (simp add: pushes_okI [of _ _ "[]"])
next
  case ResetStats
  then show ?thesis by (simp add: resetStats_def pushes_okI [of _ _ "[]"])
next
  case (Next now)
  then show ?thesis
    by (cases "queue s")
       (auto simp: next_start_def Let_def log_pq_def
         intro: pushes_okI [of _ _ "[]"] pushes_okI [of _ _ "[LogServeImmediate x y]" for x y])
next
  case (Poll start timeoutMs now)
  then show ?thesis
    by (cases "queue s")
       (auto simp: next_poll_def Let_def log_pq_def
         intro: pushes_okI [of _ _ "[]"] pushes_okI [of _ _ "[LogTimeout]"]
           pushes_okI [of _ _ "[LogServeAfterWait x y]" for x y])
next
  case (Settled c out rnd)
  then show ?thesis by (simp add: settled_pushes)
next
  case (BackoffOver c)
  then show ?thesis by (simp add: timer_pushes)
qed

lemma run_pushes: "one_epoch es s \<Longrightarrow> pushes_ok s (run es s)"
proof (induction es arbitrary: s)
  case Nil
  then show ?case by (simp add: pushes_ok_refl)
next
  case (Cons e es)
  then show ?case
    using pushes_ok_trans [OF step_pushes [of e s] Cons.IH [of "step e s"]] by simp
qed

lemma pushed_ids_ok:
  assumes "one_epoch es s"
  shows "distinct (pushed_ids es s) \<and> set (pushed_ids es s) \<inter> seenIds s = {} \<and>
         set (pushed_ids es s) \<subseteq> seenIds (run es s)"
proof -
  from run_pushes [OF assms] obtain ext where
    "logged (run es s) = logged s @ ext" "distinct (queued_ids ext)"
    "set (queued_ids ext) \<inter> seenIds s = {}" "set (queued_ids ext) \<subseteq> seenIds (run es s)"
    unfolding pushes_ok_def by blast
  then show ?thesis by (simp add: pushed_ids_def new_entries_def)
qed


subsection \<open>Attempt counters\<close>








subsection \<open>Queue and log\<close>

lemma settled_queue_log:
  "(\<exists>m. queue (fillOne_settled c out rnd s) = queue s @ [m] \<and>
        queued_ids (new_entries s (fillOne_settled c out rnd s)) = [movie_id m]) \<or>
   (queue (fillOne_settled c out rnd s) = queue s \<and>
        queued_ids (new_entries s (fillOne_settled c out rnd s)) = [])"
  by (auto simp: fillOne_settled_def fillOne_finally_def accept_def log_pq_def Let_def
      new_entries_def split: option.splits awaited.splits supplier_outcome.splits)

lemma step_queue_log:
  "(\<exists>m. queue (step e s) = queue s @ [m] \<and>
        queued_ids (new_entries s (step e s)) = [movie_id m]) \<or>
   (length (queue (step e s)) \<le> length (queue s) \<and>
        queued_ids (new_entries s (step e s)) = [])"
proof (cases e)
  case (Settled c out rnd)
  then show ?thesis using settled_queue_log [of c out rnd s] by auto
next
  case (BackoffOver c)
  then show ?thesis
    by (auto simp: fillOne_timer_def new_entries_def split: option.splits awaited.splits)
next
  case (SetConfig a b)
  then show ?thesis
    by (auto simp: setConfig_def Let_def log_pq_def new_entries_def split: option.splits)
next
  case (SetFilters f)
  then show ?thesis
    by (auto simp: setFilters_def Let_def log_pq_def new_entries_def)
next
  case (Next now)
  then show ?thesis
    by (auto simp: next_start_def Let_def log_pq_def new_entries_def split: list.splits)
next
  case (Poll start timeoutMs now)
  then show ?thesis
    by (auto simp: next_poll_def Let_def log_pq_def new_entries_def split: list.splits)
qed (simp_all add: new_entries_def resetStats_def)

subsection \<open>A Supplier that repeats itself\<close>





subsection \<open>Calls that were not cancelled\<close>



















section \<open>Properties of executions\<close>




text \<open>
  Claim C3.  During one filter epoch, from any state, the identifiers pushed into the
  queue are pairwise different, and none of them had been seen when the epoch's execution
  started; this holds for every interleaving of Supplier answers, so also when several
  concurrent attempts receive a movie with the same identifier.  The log is an exact
  record of the pushes: an event either appends one movie to the queue and logs its
  identifier as queued, or it does not lengthen the queue and logs nothing as queued.
\<close>

theorem dedup_in_epoch:
  assumes "one_epoch es s"
  shows "distinct (pushed_ids es s) \<and> set (pushed_ids es s) \<inter> seenIds s = {} \<and>
         ((\<exists>m. queue (step e t) = queue t @ [m] \<and>
               queued_ids (new_entries t (step e t)) = [movie_id m]) \<or>
          (length (queue (step e t)) \<le> length (queue t) \<and>
               queued_ids (new_entries t (step e t)) = []))"
  using pushed_ids_ok [OF assms] step_queue_log [of e t] by blast

theorem dedup_in_epoch_witness:
  "one_epoch repeats prefetchQueue \<and> pushed_ids repeats prefetchQueue = [1, 2, 3] \<and>
   distinct (pushed_ids repeats prefetchQueue)"
proof -
  have h: "one_epoch repeats prefetchQueue" by (simp add: repeats_def)
  have "pushed_ids repeats prefetchQueue = [1, 2, 3]"
    by (simp add: pushed_ids_def new_entries_def repeats_eq)
  then show ?thesis using h dedup_in_epoch [OF h] by simp
qed

text \<open>
  Claim C10.  \<open>cancel(clearQueue)\<close> leaves the seen identifiers, the filters and the
  statistics (all five counters) as they are and empties the in-flight set; with
  \<open>clearQueue\<close> false it leaves the queue as it is.  Hence in the rest of the filter epoch
  no identifier seen before the cancel is pushed again.
\<close>

theorem cancel_frame:
  "seenIds (cancel clearQueue s) = seenIds s \<and> filters (cancel clearQueue s) = filters s \<and>
   stats (cancel clearQueue s) = stats s \<and> inFlight (cancel clearQueue s) = [] \<and>
   (\<not> clearQueue \<longrightarrow> queue (cancel clearQueue s) = queue s) \<and>
   (one_epoch es (cancel clearQueue s) \<longrightarrow>
      set (pushed_ids es (cancel clearQueue s)) \<inter> seenIds s = {})"
  using pushed_ids_ok [of es "cancel clearQueue s"] by simp

theorem cancel_frame_witness:
  "queue (cancel False warm) = queue warm \<and> one_epoch after_cancel (cancel False warm) \<and>
   seenIds warm = {1} \<and> pushed_ids after_cancel (cancel False warm) = [2] \<and>
   set (pushed_ids after_cancel (cancel False warm)) \<inter> seenIds warm = {}"
proof -
  have h: "one_epoch after_cancel (cancel False warm)" by (simp add: after_cancel_def)
  have l: "logged warm = [LogQueued 1 1]" by (simp add: warm_eq)
  have "pushed_ids after_cancel (cancel False warm) = [2]"
    by (simp add: pushed_ids_def new_entries_def after_cancel_eq l)
  moreover have "seenIds warm = {1}" by (simp add: warm_eq)
  ultimately show ?thesis using h cancel_frame [of False warm after_cancel] by simp
qed



text \<open>
  Claim C2 says that the queue holds at most \<open>size\<close> movies whenever the buffer is at
  rest.  \<open>fillOne\<close> compares the queue length with \<open>size\<close> before each Supplier call and
  not after it: with two of three places taken, a fill cycle starts two attempts, each
  brings a new movie, and the buffer comes to rest with four movies.
\<close>

theorem capacity_overshoot:
  "at_rest (run overfill prefetchQueue) \<and> size_cfg (run overfill prefetchQueue) = 3 \<and>
   length (queue (run overfill prefetchQueue)) = 4"
  by (simp add: at_rest_def overfill_eq)

end
